theory Spec2Isabelle
  imports Main "HOL-Library.Sublist" "HOL-Library.Multiset" "HOL-Library.Char_ord"
    "HOL-Library.List_Lexorder"
begin

section \<open>Strings\<close>

text \<open>
  Python strings are modelled as \<^typ>\<open>string\<close>: a list of code points below 256. This is
  exact for the content of an ado file, which the reporter decodes as latin-1; for file names
  and paths it restricts the model to names made of such code points. Strings are compared as
  Python compares them, code point by code point, a proper prefix being smaller
  (the lexicographic order on lists over the order of \<^typ>\<open>char\<close> by code).
\<close>

definition TAB :: char where "TAB = CHR 0x09"
definition NL :: char where "NL = CHR 0x0A"
definition SPACE :: char where "SPACE = CHR 0x20"

text \<open>\<open>str.lower()\<close> on code points below 256: A-Z and the upper-case letters of latin-1
  (0xC0-0xDE without the multiplication sign 0xD7) move up by 32; every other code point is
  its own lower case.\<close>

definition lower_char :: "char \<Rightarrow> char" where
  "lower_char c =
     (let n = (of_char c :: nat)
      in if (65 \<le> n \<and> n \<le> 90) \<or> (192 \<le> n \<and> n \<le> 222 \<and> n \<noteq> 215)
         then char_of (n + 32) else c)"

definition lower :: "string \<Rightarrow> string" where
  "lower s = map lower_char s"

text \<open>\<open>str.isspace\<close> on code points below 256, as used by \<open>strip()\<close> and \<open>split()\<close>
  without argument.\<close>

definition is_space :: "char \<Rightarrow> bool" where
  "is_space c =
     (let n = (of_char c :: nat)
      in (9 \<le> n \<and> n \<le> 13) \<or> (28 \<le> n \<and> n \<le> 32) \<or> n = 133 \<or> n = 160)"

section \<open>The retention pruner (pip-cleanup-versions.py)\<close>

subsection \<open>Regular expressions with Python's backtracking order\<close>

text \<open>
  The two file name patterns are written in a small regular expression syntax that covers
  what they use: character classes (\<open>.\<close>, \<open>\d\<close>, a literal), literal strings, greedy and
  lazy repetition of a class, sequence, alternation, capture groups and \<open>$\<close>.
  \<open>rmatch r s c\<close> lists every way \<open>r\<close> can match a prefix of \<open>s\<close>, as the pair of the
  captures and the rest of the input, in the order in which a backtracking matcher tries
  them: a greedy repetition longest first, a lazy one shortest first, the left alternative
  before the right one. \<open>re.match\<close> returns the first one.
\<close>

datatype cclass = AnyChar | Digit | Lit char

fun in_class :: "cclass \<Rightarrow> char \<Rightarrow> bool" where
  "in_class AnyChar c = (c \<noteq> NL)"
| "in_class Digit c = (c \<in> set ''0123456789'')"
| "in_class (Lit x) c = (c = x)"

datatype regex =
    Eps
  | Atom cclass
  | Str string
  | Plus cclass
  | PlusLazy cclass
  | StarLazy cclass
  | Seq regex regex
  | Alt regex regex
  | Group nat regex
  | Eos

type_synonym caps = "nat \<rightharpoonup> string"

fun star_greedy :: "cclass \<Rightarrow> string \<Rightarrow> string list" where
  "star_greedy cl [] = [[]]"
| "star_greedy cl (x # xs) = (if in_class cl x then star_greedy cl xs else []) @ [x # xs]"

fun star_lazy :: "cclass \<Rightarrow> string \<Rightarrow> string list" where
  "star_lazy cl [] = [[]]"
| "star_lazy cl (x # xs) = (x # xs) # (if in_class cl x then star_lazy cl xs else [])"

fun plus_greedy :: "cclass \<Rightarrow> string \<Rightarrow> string list" where
  "plus_greedy cl [] = []"
| "plus_greedy cl (x # xs) = (if in_class cl x then star_greedy cl xs else [])"

fun plus_lazy :: "cclass \<Rightarrow> string \<Rightarrow> string list" where
  "plus_lazy cl [] = []"
| "plus_lazy cl (x # xs) = (if in_class cl x then star_lazy cl xs else [])"

fun rmatch :: "regex \<Rightarrow> string \<Rightarrow> caps \<Rightarrow> (caps \<times> string) list" where
  "rmatch Eps s c = [(c, s)]"
| "rmatch (Atom cl) s c =
     (case s of [] \<Rightarrow> [] | x # xs \<Rightarrow> if in_class cl x then [(c, xs)] else [])"
| "rmatch (Str w) s c = (if prefix w s then [(c, drop (length w) s)] else [])"
| "rmatch (Plus cl) s c = map (Pair c) (plus_greedy cl s)"
| "rmatch (PlusLazy cl) s c = map (Pair c) (plus_lazy cl s)"
| "rmatch (StarLazy cl) s c = map (Pair c) (star_lazy cl s)"
| "rmatch (Seq r1 r2) s c = concat (map (\<lambda>(c1, s1). rmatch r2 s1 c1) (rmatch r1 s c))"
| "rmatch (Alt r1 r2) s c = rmatch r1 s c @ rmatch r2 s c"
| "rmatch (Group i r) s c =
     map (\<lambda>(c1, s1). (c1(i \<mapsto> take (length s - length s1) s), s1)) (rmatch r s c)"
| "rmatch Eos s c = (if s = [] \<or> s = [NL] then [(c, s)] else [])"

fun cat :: "regex list \<Rightarrow> regex" where
  "cat [] = Eps"
| "cat [r] = r"
| "cat (r # rs) = Seq r (cat rs)"

text \<open>\<open>pattern.match(s)\<close>: anchored at the start of \<open>s\<close> (so the leading \<open>^\<close> of both
  patterns adds nothing), the first match in backtracking order, or None.\<close>

definition re_match :: "regex \<Rightarrow> string \<Rightarrow> caps option" where
  "re_match r s = (case rmatch r s Map.empty of [] \<Rightarrow> None | (c, _) # _ \<Rightarrow> Some c)"

subsection \<open>The two patterns\<close>

definition keep_versions :: nat where
  "keep_versions = 3"

text \<open>\<^verbatim>\<open>\d+\.\d+\.\d+.*?\<close>\<close>

definition version_re :: regex where
  "version_re = cat [Plus Digit, Str ''.'', Plus Digit, Str ''.'', Plus Digit, StarLazy AnyChar]"

text \<open>\<^verbatim>\<open>^(.+?)-(\d+\.\d+\.\d+.*?)-(cp\d+|py\d+|py2\.py3)-.+\.whl$\<close>\<close>

definition wheel_pattern :: regex where
  "wheel_pattern =
     cat [Group 1 (PlusLazy AnyChar), Str ''-'', Group 2 version_re, Str ''-'',
          Group 3 (Alt (Seq (Str ''cp'') (Plus Digit))
                    (Alt (Seq (Str ''py'') (Plus Digit)) (Str ''py2.py3''))),
          Str ''-'', Plus AnyChar, Str ''.whl'', Eos]"

text \<open>\<^verbatim>\<open>^(.+?)-(\d+\.\d+\.\d+.*?)\.(tar\.gz|tar\.bz2|zip)$\<close>\<close>

definition sdist_pattern :: regex where
  "sdist_pattern =
     cat [Group 1 (PlusLazy AnyChar), Str ''-'', Group 2 version_re, Str ''.'',
          Group 3 (Alt (Str ''tar.gz'') (Alt (Str ''tar.bz2'') (Str ''zip''))), Eos]"

text \<open>The groups the loops read: (name, version, interpreter tag) of a wheel and
  (name, version) of a source archive. Every group of both patterns takes part in every
  match (lemmas \<open>wheel_pattern_groups\<close> and \<open>sdist_pattern_groups\<close>), so the last case of
  each definition is never reached.\<close>

definition wheel_match :: "string \<Rightarrow> (string \<times> string \<times> string) option" where
  "wheel_match name =
     (case re_match wheel_pattern name of
        None \<Rightarrow> None
      | Some c \<Rightarrow>
          (case (c 1, c 2, c 3) of
             (Some pkg_name, Some pkg_version, Some py_version) \<Rightarrow>
               Some (pkg_name, pkg_version, py_version)
           | _ \<Rightarrow> None))"

definition sdist_match :: "string \<Rightarrow> (string \<times> string) option" where
  "sdist_match name =
     (case re_match sdist_pattern name of
        None \<Rightarrow> None
      | Some c \<Rightarrow>
          (case (c 1, c 2) of
             (Some pkg_name, Some pkg_version) \<Rightarrow> Some (pkg_name, pkg_version)
           | _ \<Rightarrow> None))"

subsection \<open>Scanning and grouping\<close>

text \<open>
  The target directory is the list of its file names in the order the scan yields them.
  \<open>packages_dir.glob('*.whl')\<close> keeps the names that end with the extension; the script
  runs on Windows (its directory is \<open>C:/admin/pip_mirror\<close>), where the glob ignores case.
\<close>

definition glob_ext :: "string \<Rightarrow> string list \<Rightarrow> string list" where
  "glob_ext ext dir = filter (\<lambda>name. suffix ext (lower name)) dir"

text \<open>\<open>d[k].append(v)\<close> on a \<open>defaultdict(list)\<close>; the dictionary keeps its keys in the
  order of their first insertion.\<close>

fun dict_append :: "'k \<Rightarrow> 'v \<Rightarrow> ('k \<times> 'v list) list \<Rightarrow> ('k \<times> 'v list) list" where
  "dict_append k v [] = [(k, [v])]"
| "dict_append k v ((k', vs) # d) =
     (if k = k' then (k', vs @ [v]) # d else (k', vs) # dict_append k v d)"

text \<open>The grouping loops: every file that has an entry is appended to the list of its key.\<close>

definition collect :: "('a \<Rightarrow> ('k \<times> 'v) option) \<Rightarrow> 'a list \<Rightarrow> ('k \<times> 'v list) list" where
  "collect entry files =
     foldl (\<lambda>d file. case entry file of None \<Rightarrow> d | Some (k, v) \<Rightarrow> dict_append k v d) [] files"

definition wheel_entry :: "string \<Rightarrow> ((string \<times> string) \<times> (string \<times> string)) option" where
  "wheel_entry file =
     (case wheel_match file of
        None \<Rightarrow> None
      | Some (pkg_name, pkg_version, py_version) \<Rightarrow>
          Some ((pkg_name, py_version), (pkg_version, file)))"

definition sdist_entry :: "string \<Rightarrow> (string \<times> (string \<times> string)) option" where
  "sdist_entry file =
     (case sdist_match file of
        None \<Rightarrow> None
      | Some (pkg_name, pkg_version) \<Rightarrow> Some (pkg_name, (pkg_version, file)))"

definition packages :: "string list \<Rightarrow> ((string \<times> string) \<times> (string \<times> string) list) list" where
  "packages dir = collect wheel_entry (glob_ext ''.whl'' dir)"

definition sdist_packages :: "string list \<Rightarrow> (string \<times> (string \<times> string) list) list" where
  "sdist_packages dir =
     collect sdist_entry
       (glob_ext ''.tar.gz'' dir @ glob_ext ''.tar.bz2'' dir @ glob_ext ''.zip'' dir)"

text \<open>The retention groups in the order the two pruning loops visit them, each one the list
  of its (version, file) entries.\<close>

definition retention_groups :: "string list \<Rightarrow> (string \<times> string) list list" where
  "retention_groups dir = map snd (packages dir) @ map snd (sdist_packages dir)"

subsection \<open>Pruning\<close>

text \<open>\<open>sorted(files, key=lambda x: x[0], reverse=True)\<close>: a stable sort on the version
  string; with \<open>reverse=True\<close> the list is reversed, sorted and reversed again, so entries of
  equal version keep their order.\<close>

definition sorted_files :: "(string \<times> string) list \<Rightarrow> (string \<times> string) list" where
  "sorted_files files = rev (sort_key fst (rev files))"

text \<open>The files one group's loop unlinks, in order: \<open>sorted_files[keep_versions:]\<close>. The
  retention count is a parameter \<open>K\<close>; the script fixes it to \<^const>\<open>keep_versions\<close>.\<close>

definition doomed :: "nat \<Rightarrow> (string \<times> string) list \<Rightarrow> string list" where
  "doomed K files = map snd (drop K (sorted_files files))"

definition planned :: "nat \<Rightarrow> string list \<Rightarrow> string list" where
  "planned K dir = concat (map (doomed K) (retention_groups dir))"

datatype py_error =
    SystemExit | FileNotFoundError | OSError | ValueError | JSONDecodeError
  | UnicodeDecodeError | AttributeError | TypeError

text \<open>\<open>file_path.unlink()\<close> removes the name from the directory and raises when the name is
  not there; the first exception ends the run. (Other causes of a failed deletion, such as
  permissions, are outside the model.)\<close>

fun unlink_all :: "string list \<Rightarrow> string list \<Rightarrow> py_error + string list" where
  "unlink_all [] fs = Inr fs"
| "unlink_all (file # rest) fs =
     (if file \<in> set fs then unlink_all rest (removeAll file fs) else Inl FileNotFoundError)"

text \<open>One run of the script: both scans come first, then the deletions; the result is the
  directory after the run, or the exception that ended it.\<close>

definition cleanup :: "nat \<Rightarrow> string list \<Rightarrow> py_error + string list" where
  "cleanup K dir = unlink_all (planned K dir) dir"

text \<open>The script as it stands, with its constant.\<close>

definition pip_cleanup_versions :: "string list \<Rightarrow> py_error + string list" where
  "pip_cleanup_versions dir = cleanup keep_versions dir"

section \<open>The ado inventory reporter (stata-print-csv.py)\<close>

subsection \<open>String operations of the standard library\<close>

text \<open>\<open>s.strip()\<close>, \<open>s.lstrip(chars)\<close>, \<open>s.split()\<close>, \<open>w in s\<close>, \<open>sep.join(xs)\<close> and
  \<open>s.split(sep)\<close>.\<close>

definition strip :: "string \<Rightarrow> string" where
  "strip s = rev (dropWhile is_space (rev (dropWhile is_space s)))"

definition lstrip_chars :: "string \<Rightarrow> string \<Rightarrow> string" where
  "lstrip_chars chars s = dropWhile (\<lambda>c. c \<in> set chars) s"

fun split_acc :: "string \<Rightarrow> string \<Rightarrow> string list" where
  "split_acc cur [] = (if cur = [] then [] else [cur])"
| "split_acc cur (c # cs) =
     (if is_space c then (if cur = [] then split_acc [] cs else cur # split_acc [] cs)
      else split_acc (cur @ [c]) cs)"

definition split_ws :: "string \<Rightarrow> string list" where
  "split_ws s = split_acc [] s"

fun contains :: "string \<Rightarrow> string \<Rightarrow> bool" where
  "contains w [] = (w = [])"
| "contains w (c # cs) = (prefix w (c # cs) \<or> contains w cs)"

fun join :: "string \<Rightarrow> string list \<Rightarrow> string" where
  "join sep [] = []"
| "join sep [x] = x"
| "join sep (x # y # ys) = x @ sep @ join sep (y # ys)"

fun split_on :: "char \<Rightarrow> string \<Rightarrow> string list" where
  "split_on sep [] = [[]]"
| "split_on sep (c # cs) =
     (if c = sep then [] # split_on sep cs
      else (case split_on sep cs of [] \<Rightarrow> [[c]] | f # fs \<Rightarrow> (c # f) # fs))"

subsection \<open>Metadata from the head of an ado file\<close>

definition SUMMARY_LINE_LIMIT :: nat where
  "SUMMARY_LINE_LIMIT = 30"

text \<open>The dictionary \<open>{"version": ..., "description": ...}\<close>.\<close>

record metadata =
  meta_version :: "string option"
  meta_description :: "string option"

text \<open>Truth value of an optional string: None and the empty string are false.\<close>

definition is_set :: "string option \<Rightarrow> bool" where
  "is_set v = (case v of None \<Rightarrow> False | Some s \<Rightarrow> s \<noteq> [])"

text \<open>The inner loop over \<open>enumerate(parts)\<close>: the token after the first token
  \<open>version\<close> that has a successor; None when the loop ends without assigning.\<close>

fun version_token :: "string list \<Rightarrow> string option" where
  "version_token [] = None"
| "version_token [token] = None"
| "version_token (token # next # rest) =
     (if token = ''version'' then Some next else version_token (next # rest))"

text \<open>The body of the loop over the lines, up to the test that breaks it.\<close>

definition scan_line :: "metadata \<Rightarrow> string \<Rightarrow> metadata" where
  "scan_line m line =
     (let stripped = strip line;
          lowered = lower stripped;
          m1 = (if prefix ''*'' stripped \<and> \<not> is_set (meta_description m)
                then m\<lparr>meta_description := Some (strip (lstrip_chars ''*'' stripped))\<rparr>
                else m)
      in if contains ''version'' lowered \<and> \<not> prefix ''*'' stripped
         then (case version_token (split_ws lowered) of
                 None \<Rightarrow> m1
               | Some v \<Rightarrow> m1\<lparr>meta_version := Some v\<rparr>)
         else m1)"

fun scan_lines :: "metadata \<Rightarrow> string list \<Rightarrow> metadata" where
  "scan_lines m [] = m"
| "scan_lines m (line # rest) =
     (let m' = scan_line m line
      in if is_set (meta_version m') \<and> is_set (meta_description m') then m'
         else scan_lines m' rest)"

text \<open>The argument is what \<open>handle.readlines()\<close> gives for the file: the list of its lines,
  or None when opening or reading raises \<open>OSError\<close> (the latin-1 decoding with
  \<open>errors="ignore"\<close> raises nothing).\<close>

definition extract_local_metadata :: "string list option \<Rightarrow> metadata" where
  "extract_local_metadata file =
     (case file of
        None \<Rightarrow> \<lparr>meta_version = None, meta_description = None\<rparr>
      | Some all_lines \<Rightarrow>
          scan_lines \<lparr>meta_version = None, meta_description = None\<rparr>
            (take SUMMARY_LINE_LIMIT all_lines))"

subsection \<open>Rows\<close>

text \<open>A \<open>Path\<close> is the string it was made from.\<close>

type_synonym path = string

text \<open>\<open>sanitize\<close> on the text of a field. Every field is a string but the location, a path
  whose text stands for it here, and the hash, whose text is taken where the row is built.\<close>

definition sanitize :: "string \<Rightarrow> string" where
  "sanitize field = map (\<lambda>c. if c = TAB then SPACE else c) field"

definition format_row ::
  "string \<Rightarrow> string \<Rightarrow> string \<Rightarrow> string \<Rightarrow> path \<Rightarrow> string \<Rightarrow> string \<Rightarrow> string \<Rightarrow> string
     \<Rightarrow> string" where
  "format_row package version description url location ssc_found ssc_url file_hash source =
     join [TAB]
       (map sanitize
          [package, version, source, ''Reviewer'', ''Installer'', description, url, location,
           ssc_found, ssc_url, file_hash])"

subsection \<open>The integrity manifest\<close>








subsection \<open>The report\<close>










section \<open>Notions used in the statements and proofs\<close>

text \<open>The values a grouping loop appends under one key, in scan order.\<close>

definition sel :: "('a \<Rightarrow> ('k \<times> 'v) option) \<Rightarrow> 'k \<Rightarrow> 'a list \<Rightarrow> 'v list" where
  "sel entry k xs =
     concat (map (\<lambda>x. case entry x of None \<Rightarrow> [] | Some (k', v) \<Rightarrow> if k' = k then [v] else []) xs)"

text \<open>What the dictionary built by a grouping loop is: distinct keys, each with the
  non-empty list of its values.\<close>

definition dict_of :: "('a \<Rightarrow> ('k \<times> 'v) option) \<Rightarrow> 'a list \<Rightarrow> ('k \<times> 'v list) list \<Rightarrow> bool" where
  "dict_of entry xs d \<longleftrightarrow>
     distinct (map fst d) \<and>
     (\<forall>k. map_of d k = (if sel entry k xs = [] then None else Some (sel entry k xs)))"

text \<open>An entry carries the file it was made from.\<close>

definition tagged :: "('a \<Rightarrow> ('k \<times> 'w \<times> 'a) option) \<Rightarrow> bool" where
  "tagged entry \<longleftrightarrow> (\<forall>x k v. entry x = Some (k, v) \<longrightarrow> snd v = x)"

text \<open>The files the three source archive globs yield, in the order of the loop.\<close>

definition sdist_files :: "string list \<Rightarrow> string list" where
  "sdist_files dir = glob_ext ''.tar.gz'' dir @ glob_ext ''.tar.bz2'' dir @ glob_ext ''.zip'' dir"

text \<open>A version that begins with three dot-separated numeric components.\<close>

definition numeric :: "string \<Rightarrow> bool" where
  "numeric w \<longleftrightarrow> w \<noteq> [] \<and> (\<forall>ch \<in> set w. ch \<in> set ''0123456789'')"

definition three_numeric :: "string \<Rightarrow> bool" where
  "three_numeric v \<longleftrightarrow>
     (\<exists>a b c rest. v = a @ ''.'' @ b @ ''.'' @ c @ rest \<and> numeric a \<and> numeric b \<and> numeric c)"

text \<open>The capture groups a pattern can set.\<close>

fun groups_of :: "regex \<Rightarrow> nat set" where
  "groups_of (Group i r) = insert i (groups_of r)"
| "groups_of (Seq r1 r2) = groups_of r1 \<union> groups_of r2"
| "groups_of (Alt r1 r2) = groups_of r1 \<union> groups_of r2"
| "groups_of r = {}"

text \<open>The version of the metadata, if any, is its own lower case.\<close>

definition lower_version :: "metadata \<Rightarrow> bool" where
  "lower_version m \<longleftrightarrow> (\<forall>v. meta_version m = Some v \<longrightarrow> lower v = v)"

text \<open>Example inputs: a mirror directory and what one run with \<open>K = 3\<close> leaves of it, one
  of its retention groups, the head of an ado file, a manifest of the documented shape made
  from (RelativePath, Hash) pairs, and a host whose only ado file cannot be read.\<close>

definition example_dir :: "string list" where
  "example_dir =
     [''foo-1.0.0-cp311-cp311-win_amd64.whl'', ''foo-1.1.0-cp311-cp311-win_amd64.whl'',
      ''README.txt'', ''foo-1.2.0-cp311-cp311-win_amd64.whl'',
      ''foo-0.9.0-cp311-cp311-win_amd64.whl'', ''foo-1.0.tar.gz'']"

definition example_dir_after :: "string list" where
  "example_dir_after =
     [''foo-1.0.0-cp311-cp311-win_amd64.whl'', ''foo-1.1.0-cp311-cp311-win_amd64.whl'',
      ''README.txt'', ''foo-1.2.0-cp311-cp311-win_amd64.whl'', ''foo-1.0.tar.gz'']"

definition example_group :: "(string \<times> string) list" where
  "example_group =
     [(''1.0.0'', ''foo-1.0.0-cp311-cp311-win_amd64.whl''),
      (''1.1.0'', ''foo-1.1.0-cp311-cp311-win_amd64.whl''),
      (''1.2.0'', ''foo-1.2.0-cp311-cp311-win_amd64.whl''),
      (''0.9.0'', ''foo-0.9.0-cp311-cp311-win_amd64.whl'')]"

definition widget_lines :: "string list" where
  "widget_lines =
     [''* Summary: computes widgets'' @ [NL], ''*! version 2.1'' @ [NL],
      ''program define widget'' @ [NL]]"










section \<open>The patterns\<close>

lemma star_greedy_word:
  "rest \<in> set (star_greedy cl s) \<Longrightarrow> \<exists>w. s = w @ rest \<and> (\<forall>x \<in> set w. in_class cl x)"
proof (induction s)
  case Nil
  then show ?case by simp
next
  case (Cons x s)
  then show ?case
  proof (cases "rest = x # s")
    case True
    then show ?thesis by simp
  next
    case False
    with Cons.prems have x: "in_class cl x" and "rest \<in> set (star_greedy cl s)"
      by (auto split: if_splits)
    with Cons.IH obtain w where "s = w @ rest" "\<forall>x \<in> set w. in_class cl x" by blast
    with x have "x # s = (x # w) @ rest \<and> (\<forall>y \<in> set (x # w). in_class cl y)" by simp
    then show ?thesis by blast
  qed
qed

lemma star_lazy_word:
  "rest \<in> set (star_lazy cl s) \<Longrightarrow> \<exists>w. s = w @ rest \<and> (\<forall>x \<in> set w. in_class cl x)"
proof (induction s)
  case Nil
  then show ?case by simp
next
  case (Cons x s)
  then show ?case
  proof (cases "rest = x # s")
    case True
    then show ?thesis by simp
  next
    case False
    with Cons.prems have x: "in_class cl x" and "rest \<in> set (star_lazy cl s)"
      by (auto split: if_splits)
    with Cons.IH obtain w where "s = w @ rest" "\<forall>x \<in> set w. in_class cl x" by blast
    with x have "x # s = (x # w) @ rest \<and> (\<forall>y \<in> set (x # w). in_class cl y)" by simp
    then show ?thesis by blast
  qed
qed

lemma plus_greedy_word:
  assumes "rest \<in> set (plus_greedy cl s)"
  shows "\<exists>w. s = w @ rest \<and> w \<noteq> [] \<and> (\<forall>x \<in> set w. in_class cl x)"
proof (cases s)
  case Nil
  with assms show ?thesis by simp
next
  case (Cons x xs)
  with assms have x: "in_class cl x" and "rest \<in> set (star_greedy cl xs)"
    by (auto split: if_splits)
  then obtain w where "xs = w @ rest" "\<forall>x \<in> set w. in_class cl x"
    by (blast dest: star_greedy_word)
  with x Cons have "s = (x # w) @ rest \<and> x # w \<noteq> [] \<and> (\<forall>y \<in> set (x # w). in_class cl y)"
    by simp
  then show ?thesis by blast
qed

lemma plus_lazy_word:
  assumes "rest \<in> set (plus_lazy cl s)"
  shows "\<exists>w. s = w @ rest \<and> w \<noteq> [] \<and> (\<forall>x \<in> set w. in_class cl x)"
proof (cases s)
  case Nil
  with assms show ?thesis by simp
next
  case (Cons x xs)
  with assms have x: "in_class cl x" and "rest \<in> set (star_lazy cl xs)"
    by (auto split: if_splits)
  then obtain w where "xs = w @ rest" "\<forall>x \<in> set w. in_class cl x"
    by (blast dest: star_lazy_word)
  with x Cons have "s = (x # w) @ rest \<and> x # w \<noteq> [] \<and> (\<forall>y \<in> set (x # w). in_class cl y)"
    by simp
  then show ?thesis by blast
qed

lemma rmatch_Str:
  "(c', rest) \<in> set (rmatch (Str w) s c) \<longleftrightarrow> c' = c \<and> s = w @ rest"
  by (auto simp: prefix_def)

lemma rmatch_Seq:
  "(c', rest) \<in> set (rmatch (Seq r1 r2) s c) \<longleftrightarrow>
     (\<exists>c1 s1. (c1, s1) \<in> set (rmatch r1 s c) \<and> (c', rest) \<in> set (rmatch r2 s1 c1))"
  by auto

lemma rmatch_suffix:
  "(c', rest) \<in> set (rmatch r s c) \<Longrightarrow> \<exists>w. s = w @ rest"
proof (induction r arbitrary: s c c' rest)
  case (Atom cl)
  then show ?case by (auto split: list.splits if_splits)
next
  case (Seq r1 r2)
  then obtain c1 s1 where "(c1, s1) \<in> set (rmatch r1 s c)" "(c', rest) \<in> set (rmatch r2 s1 c1)"
    unfolding rmatch_Seq by blast
  with Seq.IH obtain w1 w2 where "s = w1 @ s1" "s1 = w2 @ rest" by blast
  then have "s = (w1 @ w2) @ rest" by simp
  then show ?case by blast
qed (auto simp: prefix_def dest: plus_greedy_word plus_lazy_word star_lazy_word split: if_splits)

lemma rmatch_Group:
  assumes "(c', rest) \<in> set (rmatch (Group i r) s c)"
  shows "\<exists>c1 w. (c1, rest) \<in> set (rmatch r s c) \<and> s = w @ rest \<and> c' = c1(i \<mapsto> w)"
proof -
  from assms obtain c1 where m: "(c1, rest) \<in> set (rmatch r s c)"
    and c': "c' = c1(i \<mapsto> take (length s - length rest) s)"
    by auto
  from rmatch_suffix [OF m] obtain w where "s = w @ rest" by blast
  with m c' show ?thesis by auto
qed

lemma rmatch_frame:
  "(c', rest) \<in> set (rmatch r s c) \<Longrightarrow> i \<notin> groups_of r \<Longrightarrow> c' i = c i"
proof (induction r arbitrary: s c c' rest)
  case (Atom cl)
  then show ?case by (auto split: list.splits if_splits)
next
  case (Seq r1 r2)
  then obtain c1 s1 where "(c1, s1) \<in> set (rmatch r1 s c)" "(c', rest) \<in> set (rmatch r2 s1 c1)"
    unfolding rmatch_Seq by blast
  with Seq.IH [of _ _ _ _] Seq.prems(2) show ?case by (metis UnCI groups_of.simps(2))
next
  case (Group j r)
  then show ?case by auto
qed (auto split: if_splits)

lemma rmatch_Plus_Digit:
  assumes "(c', rest) \<in> set (rmatch (Plus Digit) s c)"
  shows "c' = c \<and> (\<exists>w. s = w @ rest \<and> numeric w)"
proof -
  from assms have "c' = c" and "rest \<in> set (plus_greedy Digit s)" by auto
  with plus_greedy_word [of rest Digit s] show ?thesis
    unfolding numeric_def by auto
qed

lemma version_re_word:
  assumes "(c', rest) \<in> set (rmatch version_re s c)"
  shows "c' = c \<and> (\<exists>v. s = v @ rest \<and> three_numeric v)"
proof -
  from assms obtain c1 s1 c2 s2 c3 s3 c4 s4 c5 s5 where
    m1: "(c1, s1) \<in> set (rmatch (Plus Digit) s c)" and
    m2: "(c2, s2) \<in> set (rmatch (Str ''.'') s1 c1)" and
    m3: "(c3, s3) \<in> set (rmatch (Plus Digit) s2 c2)" and
    m4: "(c4, s4) \<in> set (rmatch (Str ''.'') s3 c3)" and
    m5: "(c5, s5) \<in> set (rmatch (Plus Digit) s4 c4)" and
    m6: "(c', rest) \<in> set (rmatch (StarLazy AnyChar) s5 c5)"
    unfolding version_re_def cat.simps rmatch_Seq by blast
  from rmatch_Plus_Digit [OF m1] obtain a where a: "c1 = c" "s = a @ s1" "numeric a" by blast
  from m2 have d1: "c2 = c1" "s1 = ''.'' @ s2" by (simp_all only: rmatch_Str)
  from rmatch_Plus_Digit [OF m3] obtain b where b: "c3 = c2" "s2 = b @ s3" "numeric b" by blast
  from m4 have d2: "c4 = c3" "s3 = ''.'' @ s4" by (simp_all only: rmatch_Str)
  from rmatch_Plus_Digit [OF m5] obtain d where d: "c5 = c4" "s4 = d @ s5" "numeric d" by blast
  from m6 have "c' = c5" by auto
  from rmatch_suffix [OF m6] obtain e where e: "s5 = e @ rest" by blast
  have "s = (a @ ''.'' @ b @ ''.'' @ d @ e) @ rest"
    using a(2) d1(2) b(2) d2(2) d(2) e by simp
  moreover have "three_numeric (a @ ''.'' @ b @ ''.'' @ d @ e)"
    unfolding three_numeric_def using a(3) b(3) d(3) by blast
  ultimately show ?thesis
    using \<open>c' = c5\<close> a(1) d1(1) b(1) d2(1) d(1) by blast
qed

lemma group_version_re:
  assumes "(c', rest) \<in> set (rmatch (Group 2 version_re) s c)"
  shows "\<exists>v. c' = c(2 \<mapsto> v) \<and> three_numeric v"
proof -
  from rmatch_Group [OF assms] obtain c1 w where
    m: "(c1, rest) \<in> set (rmatch version_re s c)" and w: "s = w @ rest" "c' = c1(2 \<mapsto> w)"
    by blast
  from version_re_word [OF m] obtain v where "c1 = c" "s = v @ rest" "three_numeric v" by blast
  with w show ?thesis by auto
qed

lemma re_match_first:
  "re_match r s = Some c \<Longrightarrow> \<exists>rest. (c, rest) \<in> set (rmatch r s Map.empty)"
  by (auto simp: re_match_def split: list.splits)

lemma wheel_pattern_groups:
  assumes "re_match wheel_pattern s = Some c"
  shows "\<exists>n v t. c 1 = Some n \<and> c 2 = Some v \<and> c 3 = Some t \<and> three_numeric v"
proof -
  let ?tail = "cat [Str ''-'', Plus AnyChar, Str ''.whl'', Eos]"
  let ?tag = "Alt (Seq (Str ''cp'') (Plus Digit))
                (Alt (Seq (Str ''py'') (Plus Digit)) (Str ''py2.py3''))"
  from re_match_first [OF assms] obtain rest where
    "(c, rest) \<in> set (rmatch wheel_pattern s Map.empty)" by blast
  then obtain c1 s1 c2 s2 c3 s3 c4 s4 c5 s5 where
    m1: "(c1, s1) \<in> set (rmatch (Group 1 (PlusLazy AnyChar)) s Map.empty)" and
    m2: "(c2, s2) \<in> set (rmatch (Str ''-'') s1 c1)" and
    m3: "(c3, s3) \<in> set (rmatch (Group 2 version_re) s2 c2)" and
    m4: "(c4, s4) \<in> set (rmatch (Str ''-'') s3 c3)" and
    m5: "(c5, s5) \<in> set (rmatch (Group 3 ?tag) s4 c4)" and
    m6: "(c, rest) \<in> set (rmatch ?tail s5 c5)"
    unfolding wheel_pattern_def cat.simps rmatch_Seq by blast
  from rmatch_Group [OF m1] obtain n where c1: "c1 1 = Some n" by auto
  from m2 have c2: "c2 = c1" by (simp only: rmatch_Str)
  from group_version_re [OF m3] obtain v where c3: "c3 = c2(2 \<mapsto> v)" and v: "three_numeric v"
    by blast
  from m4 have c4: "c4 = c3" by (simp only: rmatch_Str)
  from rmatch_Group [OF m5] obtain c5' t where c5: "c5 = c5'(3 \<mapsto> t)"
    and m5': "(c5', s5) \<in> set (rmatch ?tag s4 c4)" by blast
  have f5: "c5' i = c4 i" for i
    by (rule rmatch_frame [OF m5']) simp
  have f6: "c i = c5 i" for i
    by (rule rmatch_frame [OF m6]) simp
  have "c 1 = Some n" "c 2 = Some v" "c 3 = Some t"
    using c1 by (simp_all add: f6 c5 f5 c4 c3 c2)
  with v show ?thesis by blast
qed

lemma sdist_pattern_groups:
  assumes "re_match sdist_pattern s = Some c"
  shows "\<exists>n v. c 1 = Some n \<and> c 2 = Some v \<and> three_numeric v"
proof -
  let ?ext = "Alt (Str ''tar.gz'') (Alt (Str ''tar.bz2'') (Str ''zip''))"
  from re_match_first [OF assms] obtain rest where
    "(c, rest) \<in> set (rmatch sdist_pattern s Map.empty)" by blast
  then obtain c1 s1 c2 s2 c3 s3 c4 s4 c5 s5 where
    m1: "(c1, s1) \<in> set (rmatch (Group 1 (PlusLazy AnyChar)) s Map.empty)" and
    m2: "(c2, s2) \<in> set (rmatch (Str ''-'') s1 c1)" and
    m3: "(c3, s3) \<in> set (rmatch (Group 2 version_re) s2 c2)" and
    m4: "(c4, s4) \<in> set (rmatch (Str ''.'') s3 c3)" and
    m5: "(c5, s5) \<in> set (rmatch (Group 3 ?ext) s4 c4)" and
    m6: "(c, rest) \<in> set (rmatch Eos s5 c5)"
    unfolding sdist_pattern_def cat.simps rmatch_Seq by blast
  from rmatch_Group [OF m1] obtain n where c1: "c1 1 = Some n" by auto
  from m2 have c2: "c2 = c1" by (simp only: rmatch_Str)
  from group_version_re [OF m3] obtain v where c3: "c3 = c2(2 \<mapsto> v)" and v: "three_numeric v"
    by blast
  from m4 have c4: "c4 = c3" by (simp only: rmatch_Str)
  from rmatch_Group [OF m5] obtain c5' t where c5: "c5 = c5'(3 \<mapsto> t)"
    and m5': "(c5', s5) \<in> set (rmatch ?ext s4 c4)" by blast
  have f5: "c5' i = c4 i" for i
    by (rule rmatch_frame [OF m5']) simp
  have f6: "c i = c5 i" for i
    by (rule rmatch_frame [OF m6]) simp
  have "c 1 = Some n" "c 2 = Some v"
    using c1 by (simp_all add: f6 c5 f5 c4 c3 c2)
  with v show ?thesis by blast
qed

lemma wheel_match_version: "wheel_match f = Some (n, v, t) \<Longrightarrow> three_numeric v"
  by (auto simp: wheel_match_def split: option.splits dest: wheel_pattern_groups)

lemma sdist_match_version: "sdist_match f = Some (n, v) \<Longrightarrow> three_numeric v"
  by (auto simp: sdist_match_def split: option.splits dest: sdist_pattern_groups)

lemma wheel_match_total:
  "wheel_match f = None \<longleftrightarrow> re_match wheel_pattern f = None"
  by (auto simp: wheel_match_def split: option.splits dest: wheel_pattern_groups)

lemma sdist_match_total:
  "sdist_match f = None \<longleftrightarrow> re_match sdist_pattern f = None"
  by (auto simp: sdist_match_def split: option.splits dest: sdist_pattern_groups)

section \<open>Grouping\<close>

lemma sel_Nil: "sel entry k [] = []"
  by (simp add: sel_def)

lemma sel_snoc:
  "sel entry k (xs @ [x]) =
     sel entry k xs @ (case entry x of None \<Rightarrow> [] | Some (k', v) \<Rightarrow> if k' = k then [v] else [])"
  by (simp add: sel_def)

lemma set_sel: "set (sel entry k xs) = {v. \<exists>x \<in> set xs. entry x = Some (k, v)}"
  by (auto simp: sel_def split: option.splits if_splits)

lemma map_of_dict_append:
  "map_of (dict_append k v d) =
     (map_of d)(k \<mapsto> (case map_of d k of None \<Rightarrow> [v] | Some vs \<Rightarrow> vs @ [v]))"
  by (induction d) (auto simp: fun_eq_iff)

lemma keys_dict_append:
  "map fst (dict_append k v d) = (if k \<in> fst ` set d then map fst d else map fst d @ [k])"
  by (induction d) (auto simp: rev_image_eqI)

lemma distinct_dict_append:
  "distinct (map fst d) \<Longrightarrow> distinct (map fst (dict_append k v d))"
  by (simp add: keys_dict_append)

lemma collect_snoc:
  "collect entry (xs @ [x]) =
     (case entry x of None \<Rightarrow> collect entry xs
      | Some (k, v) \<Rightarrow> dict_append k v (collect entry xs))"
  by (simp add: collect_def split: option.splits)

lemma dict_of_collect: "dict_of entry xs (collect entry xs)"
proof (induction xs rule: rev_induct)
  case Nil
  show ?case by (simp add: dict_of_def collect_def sel_Nil)
next
  case (snoc x xs)
  show ?case
  proof (cases "entry x")
    case None
    with snoc show ?thesis
      by (simp add: dict_of_def collect_snoc sel_snoc)
  next
    case (Some p)
    obtain k v where p: "p = (k, v)" by (cases p)
    from snoc have d: "distinct (map fst (collect entry xs))"
      and m: "\<And>k. map_of (collect entry xs) k =
                (if sel entry k xs = [] then None else Some (sel entry k xs))"
      by (simp_all add: dict_of_def)
    show ?thesis
      unfolding dict_of_def collect_snoc Some p
      using distinct_dict_append [OF d, of k v]
      by (auto simp: map_of_dict_append m sel_snoc Some p)
  qed
qed

lemma in_collect_iff:
  "(k, vs) \<in> set (collect entry xs) \<longleftrightarrow> vs = sel entry k xs \<and> vs \<noteq> []"
proof -
  have d: "distinct (map fst (collect entry xs))"
    and m: "map_of (collect entry xs) k =
              (if sel entry k xs = [] then None else Some (sel entry k xs))"
    using dict_of_collect [of entry xs] by (simp_all add: dict_of_def)
  have "(k, vs) \<in> set (collect entry xs) \<longleftrightarrow> map_of (collect entry xs) k = Some vs"
    using d by simp
  then show ?thesis
    by (auto simp: m)
qed

lemma tagged_wheel_entry: "tagged wheel_entry"
  by (auto simp: tagged_def wheel_entry_def split: option.splits)

lemma tagged_sdist_entry: "tagged sdist_entry"
  by (auto simp: tagged_def sdist_entry_def split: option.splits)

lemma map_snd_sel:
  "tagged entry \<Longrightarrow> map snd (sel entry k xs) = filter (\<lambda>x. \<exists>v. entry x = Some (k, v)) xs"
  by (induction xs) (auto simp: sel_def tagged_def split: option.splits)

lemma distinct_sel: "tagged entry \<Longrightarrow> distinct xs \<Longrightarrow> distinct (map snd (sel entry k xs))"
  by (simp add: map_snd_sel)

lemma in_sel_tagged:
  "tagged entry \<Longrightarrow> (v, f) \<in> set (sel entry k xs) \<longleftrightarrow> f \<in> set xs \<and> entry f = Some (k, (v, f))"
  by (auto simp: set_sel tagged_def)

lemma suffix_last: "suffix e s \<Longrightarrow> e \<noteq> [] \<Longrightarrow> last s = last e"
  by (auto simp: suffix_def)

lemma set_glob_ext: "set (glob_ext e dir) = {f \<in> set dir. suffix e (lower f)}"
  by (auto simp: glob_ext_def)

lemma distinct_glob_ext: "distinct dir \<Longrightarrow> distinct (glob_ext e dir)"
  by (simp add: glob_ext_def)

lemma distinct_sdist_files: "distinct dir \<Longrightarrow> distinct (sdist_files dir)"
  by (auto simp: sdist_files_def distinct_glob_ext set_glob_ext dest!: suffix_last)

lemma wheel_not_sdist: "f \<in> set (glob_ext ''.whl'' dir) \<Longrightarrow> f \<notin> set (sdist_files dir)"
  by (auto simp: sdist_files_def set_glob_ext dest!: suffix_last)

lemma set_sdist_files: "set (sdist_files dir) \<subseteq> set dir"
  by (auto simp: sdist_files_def set_glob_ext)

lemma set_files_mono:
  "set dir2 \<subseteq> set dir \<Longrightarrow> set (glob_ext e dir2) \<subseteq> set (glob_ext e dir)"
  "set dir2 \<subseteq> set dir \<Longrightarrow> set (sdist_files dir2) \<subseteq> set (sdist_files dir)"
  by (auto simp: sdist_files_def set_glob_ext)

lemma in_snd_collect_iff:
  "G \<in> snd ` set (collect entry xs) \<longleftrightarrow> G \<noteq> [] \<and> (\<exists>k. G = sel entry k xs)"
proof
  assume "G \<in> snd ` set (collect entry xs)"
  then obtain k where "(k, G) \<in> set (collect entry xs)" by auto
  then show "G \<noteq> [] \<and> (\<exists>k. G = sel entry k xs)"
    by (auto simp: in_collect_iff)
next
  assume "G \<noteq> [] \<and> (\<exists>k. G = sel entry k xs)"
  then obtain k where "(k, G) \<in> set (collect entry xs)"
    by (auto simp: in_collect_iff)
  then show "G \<in> snd ` set (collect entry xs)" by force
qed

lemma retention_groups_iff:
  "G \<in> set (retention_groups dir) \<longleftrightarrow>
     G \<noteq> [] \<and> ((\<exists>k. G = sel wheel_entry k (glob_ext ''.whl'' dir)) \<or>
               (\<exists>k. G = sel sdist_entry k (sdist_files dir)))"
  unfolding retention_groups_def packages_def sdist_packages_def set_append set_map Un_iff
    in_snd_collect_iff sdist_files_def
  by blast

lemma group_distinct:
  assumes "distinct dir" and "G \<in> set (retention_groups dir)"
  shows "distinct (map snd G)"
  using assms
  by (auto simp: retention_groups_iff distinct_sel tagged_wheel_entry tagged_sdist_entry
      distinct_glob_ext distinct_sdist_files)

lemma group_member:
  assumes "G \<in> set (retention_groups dir)" and "(v, f) \<in> set G"
  shows "f \<in> set dir \<and> (wheel_match f \<noteq> None \<or> sdist_match f \<noteq> None)"
proof -
  from assms(1) consider
    k where "G = sel wheel_entry k (glob_ext ''.whl'' dir)"
    | k where "G = sel sdist_entry k (sdist_files dir)"
    by (auto simp: retention_groups_iff)
  then show ?thesis
  proof cases
    case 1
    with assms(2) have "f \<in> set (glob_ext ''.whl'' dir)" and "wheel_entry f \<noteq> None"
      by (simp_all add: in_sel_tagged tagged_wheel_entry)
    then show ?thesis
      by (auto simp: set_glob_ext wheel_entry_def split: option.splits)
  next
    case 2
    with assms(2) have "f \<in> set (sdist_files dir)" and "sdist_entry f \<noteq> None"
      by (simp_all add: in_sel_tagged tagged_sdist_entry)
    then show ?thesis
      using set_sdist_files [of dir] by (auto simp: sdist_entry_def split: option.splits)
  qed
qed

lemma group_unique:
  assumes "G \<in> set (retention_groups dir)" and "G' \<in> set (retention_groups dir)"
    and "(v, f) \<in> set G" and "(v', f) \<in> set G'"
  shows "G = G'"
proof -
  from assms(1) consider
    k where "G = sel wheel_entry k (glob_ext ''.whl'' dir)"
    | k where "G = sel sdist_entry k (sdist_files dir)"
    by (auto simp: retention_groups_iff)
  then show ?thesis
  proof cases
    case 1
    from 1 assms(3) have f: "f \<in> set (glob_ext ''.whl'' dir)"
      and e: "wheel_entry f = Some (k, (v, f))"
      by (simp_all add: in_sel_tagged tagged_wheel_entry)
    from assms(2) consider
      k' where "G' = sel wheel_entry k' (glob_ext ''.whl'' dir)"
      | k' where "G' = sel sdist_entry k' (sdist_files dir)"
      by (auto simp: retention_groups_iff)
    then show ?thesis
    proof cases
      case 1
      with assms(4) have "wheel_entry f = Some (k', (v', f))"
        by (simp add: in_sel_tagged tagged_wheel_entry)
      with e have "k' = k" by simp
      with 1 \<open>G = sel wheel_entry k (glob_ext ''.whl'' dir)\<close> show ?thesis by simp
    next
      case 2
      with assms(4) have "f \<in> set (sdist_files dir)"
        by (simp add: in_sel_tagged tagged_sdist_entry)
      with f wheel_not_sdist show ?thesis by blast
    qed
  next
    case 2
    from 2 assms(3) have f: "f \<in> set (sdist_files dir)"
      and e: "sdist_entry f = Some (k, (v, f))"
      by (simp_all add: in_sel_tagged tagged_sdist_entry)
    from assms(2) consider
      k' where "G' = sel wheel_entry k' (glob_ext ''.whl'' dir)"
      | k' where "G' = sel sdist_entry k' (sdist_files dir)"
      by (auto simp: retention_groups_iff)
    then show ?thesis
    proof cases
      case 1
      with assms(4) have "f \<in> set (glob_ext ''.whl'' dir)"
        by (simp add: in_sel_tagged tagged_wheel_entry)
      with f wheel_not_sdist show ?thesis by blast
    next
      case 2
      with assms(4) have "sdist_entry f = Some (k', (v', f))"
        by (simp add: in_sel_tagged tagged_sdist_entry)
      with e have "k' = k" by simp
      with 2 \<open>G = sel sdist_entry k (sdist_files dir)\<close> show ?thesis by simp
    qed
  qed
qed

lemma group_mono:
  assumes "set dir2 \<subseteq> set dir" and "G2 \<in> set (retention_groups dir2)"
  shows "\<exists>G \<in> set (retention_groups dir). set G2 \<subseteq> set G"
proof -
  from assms(2) have ne: "G2 \<noteq> []" by (simp add: retention_groups_iff)
  from assms(2) consider
    k where "G2 = sel wheel_entry k (glob_ext ''.whl'' dir2)"
    | k where "G2 = sel sdist_entry k (sdist_files dir2)"
    by (auto simp: retention_groups_iff)
  then show ?thesis
  proof cases
    case 1
    let ?G = "sel wheel_entry k (glob_ext ''.whl'' dir)"
    have sub: "set G2 \<subseteq> set ?G"
      using set_files_mono(1) [OF assms(1), of "''.whl''"] by (auto simp: 1 set_sel)
    with ne have "?G \<noteq> []" by auto
    then have "?G \<in> set (retention_groups dir)"
      unfolding retention_groups_iff by blast
    with sub show ?thesis by blast
  next
    case 2
    let ?G = "sel sdist_entry k (sdist_files dir)"
    have sub: "set G2 \<subseteq> set ?G"
      using set_files_mono(2) [OF assms(1)] by (auto simp: 2 set_sel)
    with ne have "?G \<noteq> []" by auto
    then have "?G \<in> set (retention_groups dir)"
      unfolding retention_groups_iff by blast
    with sub show ?thesis by blast
  qed
qed

lemma nonempty_entry: "G \<noteq> [] \<Longrightarrow> \<exists>v f. (v, f) \<in> set G"
  by (metis list.set_intros(1) neq_Nil_conv surj_pair)

lemma distinct_retention_groups: "distinct (retention_groups dir)"
proof -
  have inj: "inj_on snd (set (collect entry xs))" if "tagged entry"
    for entry :: "string \<Rightarrow> ('k \<times> string \<times> string) option" and xs
  proof (rule inj_onI)
    fix p q assume p: "p \<in> set (collect entry xs)" and q: "q \<in> set (collect entry xs)"
      and eq: "snd p = snd q"
    obtain k G where pk: "p = (k, G)" by (cases p)
    obtain k' G' where qk: "q = (k', G')" by (cases q)
    from p pk have "(k, G) \<in> set (collect entry xs)" by simp
    then have G: "G = sel entry k xs" "G \<noteq> []" unfolding in_collect_iff by blast+
    from q qk eq pk have "(k', G) \<in> set (collect entry xs)" by simp
    then have G2: "G = sel entry k' xs" unfolding in_collect_iff by blast
    from G(2) obtain v f where "(v, f) \<in> set G" by (blast dest: nonempty_entry)
    with G(1) G2 that have "entry f = Some (k, (v, f))" "entry f = Some (k', (v, f))"
      by (metis in_sel_tagged)+
    then have "k = k'" by simp
    with pk qk eq show "p = q" by simp
  qed
  have dist: "distinct (map snd (collect entry xs))" if "tagged entry"
    for entry :: "string \<Rightarrow> ('k \<times> string \<times> string) option" and xs
  proof -
    have "distinct (map fst (collect entry xs))"
      using dict_of_collect [of entry xs] by (simp add: dict_of_def)
    then have "distinct (collect entry xs)" by (simp add: distinct_map)
    with inj [OF that] show ?thesis by (simp add: distinct_map)
  qed
  have disj: "G \<notin> snd ` set (sdist_packages dir)" if "G \<in> snd ` set (packages dir)" for G
  proof
    assume "G \<in> snd ` set (sdist_packages dir)"
    then obtain k' where s: "G = sel sdist_entry k' (sdist_files dir)"
      unfolding sdist_packages_def in_snd_collect_iff sdist_files_def by blast
    from that obtain k where w: "G = sel wheel_entry k (glob_ext ''.whl'' dir)" and "G \<noteq> []"
      unfolding packages_def in_snd_collect_iff by blast
    then obtain v f where vf: "(v, f) \<in> set G" by (blast dest: nonempty_entry)
    from vf w have "f \<in> set (glob_ext ''.whl'' dir)"
      by (simp add: in_sel_tagged tagged_wheel_entry)
    moreover from vf s have "f \<in> set (sdist_files dir)"
      by (simp add: in_sel_tagged tagged_sdist_entry)
    ultimately show False using wheel_not_sdist by blast
  qed
  show ?thesis
    unfolding retention_groups_def distinct_append
    using dist [OF tagged_wheel_entry] dist [OF tagged_sdist_entry] disj
    by (auto simp: packages_def sdist_packages_def)
qed

lemma group_entry_version:
  assumes "G \<in> set (retention_groups dir)" and "(v, f) \<in> set G"
  shows "three_numeric v"
proof -
  from assms(1) consider
    k where "G = sel wheel_entry k (glob_ext ''.whl'' dir)"
    | k where "G = sel sdist_entry k (sdist_files dir)"
    by (auto simp: retention_groups_iff)
  then show ?thesis
  proof cases
    case 1
    with assms(2) have "wheel_entry f = Some (k, (v, f))"
      by (simp add: in_sel_tagged tagged_wheel_entry)
    then obtain n t where "wheel_match f = Some (n, v, t)"
      by (auto simp: wheel_entry_def split: option.splits)
    then show ?thesis by (rule wheel_match_version)
  next
    case 2
    with assms(2) have "sdist_entry f = Some (k, (v, f))"
      by (simp add: in_sel_tagged tagged_sdist_entry)
    then obtain n where "sdist_match f = Some (n, v)"
      by (auto simp: sdist_entry_def split: option.splits)
    then show ?thesis by (rule sdist_match_version)
  qed
qed

lemma unmatched_in_no_group:
  assumes "wheel_match f = None" and "sdist_match f = None"
  shows "f \<notin> snd ` set (concat (retention_groups dir))"
proof
  assume "f \<in> snd ` set (concat (retention_groups dir))"
  then obtain G v where "G \<in> set (retention_groups dir)" "(v, f) \<in> set G"
    by force
  from group_member [OF this] assms show False by simp
qed

section \<open>Sorting and the deletion plan\<close>

lemma mset_sorted_files: "mset (sorted_files G) = mset G"
  by (simp add: sorted_files_def)

lemma set_sorted_files: "set (sorted_files G) = set G"
  by (simp add: sorted_files_def)

lemma length_sorted_files: "length (sorted_files G) = length G"
  by (simp add: sorted_files_def)

lemma distinct_sorted_files: "distinct (map snd G) \<Longrightarrow> distinct (map snd (sorted_files G))"
proof -
  have "mset (map snd (sorted_files G)) = mset (map snd G)"
    by (simp add: mset_sorted_files)
  then show "distinct (map snd G) \<Longrightarrow> distinct (map snd (sorted_files G))"
    by (metis mset_eq_imp_distinct_iff)
qed

lemma sorted_files_desc:
  assumes "k \<in> set (take K (sorted_files G))" and "d \<in> set (drop K (sorted_files G))"
  shows "fst d \<le> fst k"
proof -
  let ?S = "sorted_files G"
  have "sorted (map fst (rev ?S))"
    by (simp add: sorted_files_def)
  moreover have "rev ?S = rev (drop K ?S) @ rev (take K ?S)"
    by (metis append_take_drop_id rev_append)
  ultimately have "sorted (map fst (rev (drop K ?S)) @ map fst (rev (take K ?S)))"
    by simp
  then have "\<forall>x \<in> set (map fst (rev (drop K ?S))). \<forall>y \<in> set (map fst (rev (take K ?S))). x \<le> y"
    by (simp only: sorted_append) blast
  with assms show ?thesis by simp
qed

lemma set_doomed: "set (doomed K G) = snd ` set (drop K (sorted_files G))"
  by (simp add: doomed_def)

lemma length_doomed: "length (doomed K G) = length G - K"
  by (simp add: doomed_def length_sorted_files)

lemma distinct_doomed: "distinct (map snd G) \<Longrightarrow> distinct (doomed K G)"
  unfolding doomed_def drop_map [symmetric]
  by (rule distinct_drop) (rule distinct_sorted_files)

lemma doomed_subset: "f \<in> set (doomed K G) \<Longrightarrow> \<exists>v. (v, f) \<in> set G"
proof -
  assume "f \<in> set (doomed K G)"
  then obtain e where "e \<in> set (drop K (sorted_files G))" and "f = snd e"
    by (auto simp: set_doomed)
  then have "e \<in> set G"
    using set_sorted_files [of G] by (metis in_set_dropD)
  with \<open>f = snd e\<close> show ?thesis by (cases e) auto
qed

lemma kept_or_doomed:
  assumes "(v, f) \<in> set G"
  shows "(v, f) \<in> set (take K (sorted_files G)) \<or> f \<in> set (doomed K G)"
proof -
  have "set G = set (take K (sorted_files G)) \<union> set (drop K (sorted_files G))"
    by (metis append_take_drop_id set_append set_sorted_files)
  with assms show ?thesis
    by (force simp: set_doomed)
qed

lemma kept_not_doomed:
  assumes "distinct (map snd G)" and "(v, f) \<in> set (take K (sorted_files G))"
  shows "f \<notin> set (doomed K G)"
proof -
  let ?S = "sorted_files G"
  have "distinct (map snd (take K ?S) @ map snd (drop K ?S))"
    using distinct_sorted_files [OF assms(1)]
    by (metis append_take_drop_id map_append)
  then have "set (map snd (take K ?S)) \<inter> set (map snd (drop K ?S)) = {}"
    by simp
  moreover from assms(2) have "f \<in> set (map snd (take K ?S))" by force
  ultimately show ?thesis by (auto simp: set_doomed)
qed

lemma set_planned: "set (planned K dir) = (\<Union>G \<in> set (retention_groups dir). set (doomed K G))"
  by (simp add: planned_def)

lemma planned_in_group:
  assumes "G \<in> set (retention_groups dir)" and "(v, f) \<in> set G"
  shows "f \<in> set (planned K dir) \<longleftrightarrow> f \<in> set (doomed K G)"
proof
  assume "f \<in> set (planned K dir)"
  then obtain G' where G': "G' \<in> set (retention_groups dir)" and "f \<in> set (doomed K G')"
    by (auto simp: set_planned)
  then obtain v' where "(v', f) \<in> set G'" by (blast dest: doomed_subset)
  with assms G' have "G = G'" by (blast intro: group_unique)
  with \<open>f \<in> set (doomed K G')\<close> show "f \<in> set (doomed K G)" by simp
next
  assume "f \<in> set (doomed K G)"
  with assms(1) show "f \<in> set (planned K dir)" by (auto simp: set_planned)
qed

lemma planned_subset: "set (planned K dir) \<subseteq> set dir"
  by (auto simp: set_planned dest!: doomed_subset dest: group_member)

lemma unmatched_not_planned:
  assumes "wheel_match f = None" and "sdist_match f = None"
  shows "f \<notin> set (planned K dir)"
proof
  assume "f \<in> set (planned K dir)"
  then obtain G where G: "G \<in> set (retention_groups dir)" and "f \<in> set (doomed K G)"
    by (auto simp: set_planned)
  then obtain v where "(v, f) \<in> set G" by (blast dest: doomed_subset)
  from group_member [OF G this] assms show False by simp
qed

lemma distinct_concat_map:
  assumes "distinct xs"
    and "\<And>x. x \<in> set xs \<Longrightarrow> distinct (f x)"
    and "\<And>x y. x \<in> set xs \<Longrightarrow> y \<in> set xs \<Longrightarrow> x \<noteq> y \<Longrightarrow> set (f x) \<inter> set (f y) = {}"
  shows "distinct (concat (map f xs))"
  using assms
proof (induction xs)
  case Nil
  show ?case by simp
next
  case (Cons x xs)
  have "distinct (concat (map f xs))"
    using Cons by simp
  moreover have "distinct (f x)" using Cons.prems(2) by simp
  moreover have "set (f x) \<inter> set (f y) = {}" if "y \<in> set xs" for y
    using Cons.prems(1) Cons.prems(3) [of x y] that by auto
  ultimately show ?case by auto
qed

lemma distinct_planned:
  assumes "distinct dir"
  shows "distinct (planned K dir)"
  unfolding planned_def
proof (rule distinct_concat_map)
  show "distinct (retention_groups dir)" by (rule distinct_retention_groups)
next
  fix G assume "G \<in> set (retention_groups dir)"
  with assms show "distinct (doomed K G)"
    by (blast intro: distinct_doomed group_distinct)
next
  fix G G' assume G: "G \<in> set (retention_groups dir)" "G' \<in> set (retention_groups dir)"
    and ne: "G \<noteq> G'"
  show "set (doomed K G) \<inter> set (doomed K G') = {}"
  proof (rule ccontr)
    assume "set (doomed K G) \<inter> set (doomed K G') \<noteq> {}"
    then obtain f where "f \<in> set (doomed K G)" "f \<in> set (doomed K G')" by auto
    then obtain v v' where "(v, f) \<in> set G" "(v', f) \<in> set G'"
      by (blast dest: doomed_subset)
    with G have "G = G'" by (rule group_unique)
    with ne show False by simp
  qed
qed

lemma unlink_all_ok:
  "distinct ps \<Longrightarrow> set ps \<subseteq> set fs \<Longrightarrow> unlink_all ps fs = Inr (filter (\<lambda>f. f \<notin> set ps) fs)"
proof (induction ps arbitrary: fs)
  case Nil
  show ?case by simp
next
  case (Cons p ps)
  have "unlink_all ps (removeAll p fs) = Inr (filter (\<lambda>f. f \<notin> set ps) (removeAll p fs))"
    using Cons.prems by (intro Cons.IH) auto
  moreover have "filter (\<lambda>f. f \<notin> set ps) (removeAll p fs) = filter (\<lambda>f. f \<notin> set (p # ps)) fs"
    by (induction fs) auto
  ultimately show ?case using Cons.prems by simp
qed

lemma cleanup_ok:
  "distinct dir \<Longrightarrow> cleanup K dir = Inr (filter (\<lambda>f. f \<notin> set (planned K dir)) dir)"
  unfolding cleanup_def
  by (rule unlink_all_ok) (simp_all add: distinct_planned planned_subset)

lemma group_entry_unique:
  assumes "distinct (map snd G)" and "(v, f) \<in> set G" and "(v', f) \<in> set G"
  shows "v = v'"
proof -
  from assms(1) have "inj_on snd (set G)" by (simp add: distinct_map)
  from inj_onD [OF this _ assms(2) assms(3)] show ?thesis by simp
qed

lemma deleted_of_group:
  assumes "G \<in> set (retention_groups dir)" and "set dir' = set dir - set (planned K dir)"
  shows "{f \<in> snd ` set G. f \<notin> set dir'} = set (doomed K G)"
proof (rule set_eqI)
  fix f
  show "f \<in> {f \<in> snd ` set G. f \<notin> set dir'} \<longleftrightarrow> f \<in> set (doomed K G)"
  proof
    assume "f \<in> {f \<in> snd ` set G. f \<notin> set dir'}"
    then obtain v where vf: "(v, f) \<in> set G" and "f \<notin> set dir'" by force
    moreover from vf have "f \<in> set dir" using group_member [OF assms(1)] by blast
    ultimately have "f \<in> set (planned K dir)" using assms(2) by blast
    with planned_in_group [OF assms(1) vf] show "f \<in> set (doomed K G)" by simp
  next
    assume d: "f \<in> set (doomed K G)"
    then obtain v where vf: "(v, f) \<in> set G" by (blast dest: doomed_subset)
    then have "f \<in> snd ` set G" by force
    moreover from d planned_in_group [OF assms(1) vf] have "f \<in> set (planned K dir)" by simp
    ultimately show "f \<in> {f \<in> snd ` set G. f \<notin> set dir'}" using assms(2) by blast
  qed
qed

lemma kept_of_group:
  assumes "G \<in> set (retention_groups dir)" and "set dir' = set dir - set (planned K dir)"
  shows "{f \<in> snd ` set G. f \<in> set dir'} = snd ` set G - set (doomed K G)"
  using deleted_of_group [OF assms] by blast

lemma example_dir_distinct: "distinct example_dir"
  by (simp add: example_dir_def)

lemma example_group_formed: "example_group \<in> set (retention_groups example_dir)"
  by code_simp

lemma example_cleanup: "cleanup 3 example_dir = Inr example_dir_after"
  by code_simp

section \<open>Claims about the pruner\<close>

text \<open>
  Claim C1. Take a directory of distinct names and any retention group the pruner forms
  from it (a wheel group keyed by name and interpreter tag, or a source archive group keyed
  by name), with \<open>N\<close> entries, and any retention count \<open>K\<close>. The run ends without an
  exception; if \<open>N \<le> K\<close> no file of the group is deleted; if \<open>N > K\<close> exactly \<open>N - K\<close>
  files of the group are deleted and \<open>K\<close> remain; and every file of the group that remains
  has a version string at least as great, in the order of strings, as every file of the
  group that was deleted.
\<close>

theorem prune_group_keeps_newest:
  assumes "distinct dir" and "files \<in> set (retention_groups dir)"
  shows "\<exists>dir'. cleanup K dir = Inr dir' \<and>
     (let N = length files;
          deleted = {f \<in> snd ` set files. f \<notin> set dir'};
          kept = {f \<in> snd ` set files. f \<in> set dir'}
      in (N \<le> K \<longrightarrow> deleted = {}) \<and>
         (K < N \<longrightarrow> card deleted = N - K \<and> card kept = K) \<and>
         (\<forall>(v, f) \<in> set files. \<forall>(v', f') \<in> set files.
            f \<in> set dir' \<and> f' \<notin> set dir' \<longrightarrow> v' \<le> v))"
proof -
  define dir' where "dir' = filter (\<lambda>f. f \<notin> set (planned K dir)) dir"
  define del where "del = {f \<in> snd ` set files. f \<notin> set dir'}"
  define kept where "kept = {f \<in> snd ` set files. f \<in> set dir'}"
  have sd: "set dir' = set dir - set (planned K dir)" by (auto simp: dir'_def)
  have run: "cleanup K dir = Inr dir'"
    unfolding dir'_def by (rule cleanup_ok [OF assms(1)])
  have dG: "distinct (map snd files)" by (rule group_distinct [OF assms])
  have del: "del = set (doomed K files)"
    unfolding del_def by (rule deleted_of_group [OF assms(2) sd])
  have kept: "kept = snd ` set files - set (doomed K files)"
    unfolding kept_def by (rule kept_of_group [OF assms(2) sd])
  have "card (set (doomed K files)) = length (doomed K files)"
    by (rule distinct_card) (rule distinct_doomed [OF dG])
  then have card_del: "card del = length files - K"
    by (simp add: del length_doomed)
  have sub: "set (doomed K files) \<subseteq> snd ` set files"
  proof
    fix f assume "f \<in> set (doomed K files)"
    then obtain v where "(v, f) \<in> set files" by (blast dest: doomed_subset)
    then show "f \<in> snd ` set files" by force
  qed
  have card_files: "card (snd ` set files) = length files"
    using dG by (metis distinct_card length_map set_map)
  have "card kept = card (snd ` set files) - card (set (doomed K files))"
    unfolding kept by (rule card_Diff_subset) (simp_all add: sub)
  then have card_kept: "card kept = length files - (length files - K)"
    using card_del by (simp add: del card_files)
  have small: "del = {}" if "length files \<le> K"
    using that length_doomed [of K files] by (simp add: del)
  have order: "v' \<le> v"
    if "(v, f) \<in> set files" "(v', f') \<in> set files" "f \<in> set dir'" "f' \<notin> set dir'" for v f v' f'
  proof -
    from that(1,3) have "f \<in> kept" unfolding kept_def by force
    then have "f \<notin> set (doomed K files)" using kept by blast
    with that(1) have k: "(v, f) \<in> set (take K (sorted_files files))"
      using kept_or_doomed by blast
    from that(2,4) have "f' \<in> del" unfolding del_def by force
    then have "f' \<in> set (doomed K files)" using del by blast
    then obtain e where e: "e \<in> set (drop K (sorted_files files))" and "snd e = f'"
      by (auto simp: set_doomed)
    then have "(fst e, f') \<in> set files"
      using set_sorted_files [of files] by (metis in_set_dropD prod.collapse)
    with that(2) dG have "fst e = v'" by (blast dest: group_entry_unique)
    with sorted_files_desc [OF k e] show ?thesis by simp
  qed
  have "(length files \<le> K \<longrightarrow> del = {}) \<and>
        (K < length files \<longrightarrow> card del = length files - K \<and> card kept = K) \<and>
        (\<forall>(v, f) \<in> set files. \<forall>(v', f') \<in> set files.
            f \<in> set dir' \<and> f' \<notin> set dir' \<longrightarrow> v' \<le> v)"
    using small card_del card_kept order by auto
  with run show ?thesis
    unfolding Let_def del_def kept_def by blast
qed

theorem prune_group_keeps_newest_witness:
  "distinct example_dir \<and> example_group \<in> set (retention_groups example_dir) \<and>
   length example_group = 4 \<and> cleanup 3 example_dir = Inr example_dir_after \<and>
   (\<exists>dir'. cleanup 3 example_dir = Inr dir' \<and>
     (let N = length example_group;
          deleted = {f \<in> snd ` set example_group. f \<notin> set dir'};
          kept = {f \<in> snd ` set example_group. f \<in> set dir'}
      in (N \<le> 3 \<longrightarrow> deleted = {}) \<and>
         (3 < N \<longrightarrow> card deleted = N - 3 \<and> card kept = 3) \<and>
         (\<forall>(v, f) \<in> set example_group. \<forall>(v', f') \<in> set example_group.
            f \<in> set dir' \<and> f' \<notin> set dir' \<longrightarrow> v' \<le> v)))"
proof -
  have l: "length example_group = 4" by (simp add: example_group_def)
  from prune_group_keeps_newest [OF example_dir_distinct example_group_formed, of 3]
    example_dir_distinct example_group_formed l example_cleanup
  show ?thesis by (intro conjI)
qed

text \<open>
  Claim C5. Pruning is idempotent: after a first run on a directory of distinct names with
  retention count \<open>K\<close>, a second run with the same \<open>K\<close> on what the first run left, in
  whatever order the second scan lists it, plans no deletion and leaves the directory as it
  is.
\<close>

theorem prune_idempotent:
  assumes "distinct dir"
  shows "\<exists>dir'. cleanup K dir = Inr dir' \<and>
     (\<forall>dir2. distinct dir2 \<and> set dir2 = set dir' \<longrightarrow>
        planned K dir2 = [] \<and> cleanup K dir2 = Inr dir2)"
proof -
  let ?dir' = "filter (\<lambda>f. f \<notin> set (planned K dir)) dir"
  have run: "cleanup K dir = Inr ?dir'" by (rule cleanup_ok [OF assms])
  have second: "planned K dir2 = [] \<and> cleanup K dir2 = Inr dir2"
    if d2: "distinct dir2" and s2: "set dir2 = set ?dir'" for dir2
  proof -
    have "doomed K G2 = []" if G2: "G2 \<in> set (retention_groups dir2)" for G2
    proof -
      from s2 have "set dir2 \<subseteq> set dir" by auto
      from group_mono [OF this G2] obtain G
        where G: "G \<in> set (retention_groups dir)" and sub: "set G2 \<subseteq> set G" by blast
      have "e \<in> set (take K (sorted_files G))" if e: "e \<in> set G2" for e
      proof -
        obtain v f where vf: "e = (v, f)" by (cases e)
        from e vf G2 have "f \<in> set dir2" using group_member by blast
        with s2 have "f \<notin> set (planned K dir)" by simp
        moreover from e vf sub have "(v, f) \<in> set G" by auto
        ultimately show ?thesis
          using planned_in_group [OF G, of v f K] kept_or_doomed [of v f G K] vf by blast
      qed
      then have "set G2 \<subseteq> set (take K (sorted_files G))" by blast
      then have "card (set G2) \<le> card (set (take K (sorted_files G)))"
        by (simp add: card_mono)
      also have "\<dots> \<le> length (take K (sorted_files G))" by (rule card_length)
      also have "\<dots> \<le> K" by simp
      finally have "card (set G2) \<le> K" .
      moreover have "distinct G2"
        using group_distinct [OF d2 G2] by (simp add: distinct_map)
      ultimately have "length G2 \<le> K" by (simp add: distinct_card)
      then show ?thesis by (simp add: doomed_def length_sorted_files)
    qed
    then have "planned K dir2 = []" by (simp add: planned_def)
    then show ?thesis by (simp add: cleanup_def)
  qed
  from run second show ?thesis by blast
qed

theorem prune_idempotent_witness:
  "distinct example_dir \<and> cleanup 3 example_dir = Inr example_dir_after \<and>
   example_dir_after \<noteq> example_dir \<and>
   planned 3 example_dir_after = [] \<and> cleanup 3 example_dir_after = Inr example_dir_after"
proof -
  have d: "distinct example_dir_after" by (simp add: example_dir_after_def)
  have ne: "example_dir_after \<noteq> example_dir"
    by (simp add: example_dir_after_def example_dir_def)
  from prune_idempotent [OF example_dir_distinct, of 3] obtain dir' where
    "cleanup 3 example_dir = Inr dir' \<and>
     (\<forall>dir2. distinct dir2 \<and> set dir2 = set dir' \<longrightarrow>
        planned 3 dir2 = [] \<and> cleanup 3 dir2 = Inr dir2)" ..
  then have run: "cleanup 3 example_dir = Inr dir'"
    and again: "\<forall>dir2. distinct dir2 \<and> set dir2 = set dir' \<longrightarrow>
        planned 3 dir2 = [] \<and> cleanup 3 dir2 = Inr dir2"
    by (rule conjunct1, rule conjunct2)
  from run example_cleanup have "dir' = example_dir_after" by simp
  with again d have "planned 3 example_dir_after = [] \<and>
      cleanup 3 example_dir_after = Inr example_dir_after"
    by simp
  with example_dir_distinct example_cleanup ne show ?thesis by (intro conjI) simp_all
qed

text \<open>
  Claim C6. A file of the directory whose name matches neither pattern is in no retention
  group (so no group's size counts it), is not among the planned deletions, and is still in
  the directory after the run.
\<close>

theorem unmatched_file_untouched:
  assumes "distinct dir" and "f \<in> set dir"
    and "wheel_match f = None" and "sdist_match f = None"
  shows "(\<forall>files \<in> set (retention_groups dir). f \<notin> snd ` set files) \<and>
         f \<notin> set (planned K dir) \<and>
         (\<exists>dir'. cleanup K dir = Inr dir' \<and> f \<in> set dir')"
proof -
  have no_group: "f \<notin> snd ` set files" if "files \<in> set (retention_groups dir)" for files
    using group_member [OF that] assms(3,4) by force
  have "f \<notin> set (planned K dir)"
  proof
    assume "f \<in> set (planned K dir)"
    then obtain G where G: "G \<in> set (retention_groups dir)" and "f \<in> set (doomed K G)"
      by (auto simp: set_planned)
    then obtain v where "(v, f) \<in> set G" by (blast dest: doomed_subset)
    then have "f \<in> snd ` set G" by force
    with no_group [OF G] show False by simp
  qed
  with cleanup_ok [OF assms(1), of K] assms(2) no_group show ?thesis by simp
qed

theorem unmatched_file_untouched_witness:
  "distinct example_dir \<and> ''README.txt'' \<in> set example_dir \<and>
   wheel_match ''README.txt'' = None \<and> sdist_match ''README.txt'' = None \<and>
   ''README.txt'' \<notin> snd ` set (concat (retention_groups example_dir)) \<and>
   ''README.txt'' \<notin> set (planned 3 example_dir) \<and>
   (\<exists>dir'. cleanup 3 example_dir = Inr dir' \<and> ''README.txt'' \<in> set dir')"
proof -
  have h2: "''README.txt'' \<in> set example_dir" by (simp add: example_dir_def)
  have h3: "wheel_match ''README.txt'' = None" by code_simp
  have h4: "sdist_match ''README.txt'' = None" by code_simp
  note t = unmatched_file_untouched [OF example_dir_distinct h2 h3 h4, of 3]
  from t [THEN conjunct1]
  have c1: "''README.txt'' \<notin> snd ` set (concat (retention_groups example_dir))"
    by auto
  from t [THEN conjunct2, THEN conjunct1]
  have c2: "''README.txt'' \<notin> set (planned 3 example_dir)" .
  from t [THEN conjunct2, THEN conjunct2]
  have c3: "\<exists>dir'. cleanup 3 example_dir = Inr dir' \<and> ''README.txt'' \<in> set dir'" .
  from example_dir_distinct h2 h3 h4 c1 c2 c3 show ?thesis by (intro conjI)
qed

text \<open>
  Claim C9. Both patterns need a version that begins with three dot-separated numeric
  components: the version group of every match of the wheel pattern and of the source
  archive pattern has this form, and so has the version of every entry of every retention
  group. \<open>foo-1.0.tar.gz\<close> and \<open>foo-2.1-py3-none-any.whl\<close> match neither pattern, are in no
  retention group and are never among the planned deletions.
\<close>

theorem version_needs_three_components:
  "(wheel_match f = Some (n, v, t) \<longrightarrow> three_numeric v) \<and>
   (sdist_match g = Some (n', v') \<longrightarrow> three_numeric v') \<and>
   (files \<in> set (retention_groups dir) \<and> (ver, file) \<in> set files \<longrightarrow> three_numeric ver) \<and>
   wheel_match ''foo-1.0.tar.gz'' = None \<and> sdist_match ''foo-1.0.tar.gz'' = None \<and>
   wheel_match ''foo-2.1-py3-none-any.whl'' = None \<and>
   sdist_match ''foo-2.1-py3-none-any.whl'' = None \<and>
   ''foo-1.0.tar.gz'' \<notin> snd ` set (concat (retention_groups dir)) \<and>
   ''foo-1.0.tar.gz'' \<notin> set (planned K dir) \<and>
   ''foo-2.1-py3-none-any.whl'' \<notin> snd ` set (concat (retention_groups dir)) \<and>
   ''foo-2.1-py3-none-any.whl'' \<notin> set (planned K dir)"
proof -
  have a1: "wheel_match ''foo-1.0.tar.gz'' = None" by code_simp
  have a2: "sdist_match ''foo-1.0.tar.gz'' = None" by code_simp
  have b1: "wheel_match ''foo-2.1-py3-none-any.whl'' = None" by code_simp
  have b2: "sdist_match ''foo-2.1-py3-none-any.whl'' = None" by code_simp
  show ?thesis
  proof (intro conjI impI)
    assume "wheel_match f = Some (n, v, t)"
    then show "three_numeric v" by (rule wheel_match_version)
  next
    assume "sdist_match g = Some (n', v')"
    then show "three_numeric v'" by (rule sdist_match_version)
  next
    assume "files \<in> set (retention_groups dir) \<and> (ver, file) \<in> set files"
    then show "three_numeric ver" by (blast intro: group_entry_version)
  qed (simp_all only: a1 a2 b1 b2 unmatched_in_no_group [OF a1 a2] unmatched_in_no_group [OF b1 b2]
        unmatched_not_planned [OF a1 a2] unmatched_not_planned [OF b1 b2] not_False_eq_True)
qed

theorem version_needs_three_components_witness:
  "wheel_match ''numpy-1.24.3-cp313-cp313-win_amd64.whl'' = Some (''numpy'', ''1.24.3'', ''cp313'') \<and>
   three_numeric ''1.24.3'' \<and>
   sdist_match ''scipy-1.11.4rc1.tar.gz'' = Some (''scipy'', ''1.11.4rc1'') \<and>
   three_numeric ''1.11.4rc1'' \<and>
   example_group \<in> set (retention_groups example_dir) \<and>
   (''0.9.0'', ''foo-0.9.0-cp311-cp311-win_amd64.whl'') \<in> set example_group \<and>
   three_numeric ''0.9.0''"
proof -
  have w: "wheel_match ''numpy-1.24.3-cp313-cp313-win_amd64.whl'' =
             Some (''numpy'', ''1.24.3'', ''cp313'')"
    by code_simp
  have s: "sdist_match ''scipy-1.11.4rc1.tar.gz'' = Some (''scipy'', ''1.11.4rc1'')"
    by code_simp
  have m: "(''0.9.0'', ''foo-0.9.0-cp311-cp311-win_amd64.whl'') \<in> set example_group"
    by (simp add: example_group_def)
  note t = version_needs_three_components
    [of "''numpy-1.24.3-cp313-cp313-win_amd64.whl''" "''numpy''" "''1.24.3''" "''cp313''"
        "''scipy-1.11.4rc1.tar.gz''" "''scipy''" "''1.11.4rc1''"
        example_group example_dir "''0.9.0''" "''foo-0.9.0-cp311-cp311-win_amd64.whl''" 3]
  from t [THEN conjunct1] w have c1: "three_numeric ''1.24.3''" by (rule mp)
  from t [THEN conjunct2, THEN conjunct1] s have c2: "three_numeric ''1.11.4rc1''" by (rule mp)
  from example_group_formed m
  have "example_group \<in> set (retention_groups example_dir) \<and>
        (''0.9.0'', ''foo-0.9.0-cp311-cp311-win_amd64.whl'') \<in> set example_group"
    by (rule conjI)
  with t [THEN conjunct2, THEN conjunct2, THEN conjunct1]
  have c3: "three_numeric ''0.9.0''" by (rule mp)
  from w c1 s c2 example_group_formed m c3 show ?thesis by (intro conjI)
qed

section \<open>Rows\<close>

lemma sanitize_no_tab: "TAB \<notin> set (sanitize field)"
  by (auto simp: sanitize_def TAB_def SPACE_def)

lemma split_on_no_sep: "sep \<notin> set f \<Longrightarrow> split_on sep f = [f]"
  by (induction f) auto

lemma split_on_append:
  "sep \<notin> set f \<Longrightarrow> split_on sep (f @ sep # rest) = f # split_on sep rest"
  by (induction f) auto

lemma split_on_join_Cons:
  "\<forall>f \<in> set (x # xs). sep \<notin> set f \<Longrightarrow> split_on sep (join [sep] (x # xs)) = x # xs"
proof (induction xs arbitrary: x)
  case Nil
  then show ?case by (simp add: split_on_no_sep)
next
  case (Cons y ys)
  then have "split_on sep (join [sep] (y # ys)) = y # ys" by simp
  with Cons.prems show ?case by (simp add: split_on_append)
qed

lemma split_on_join:
  "fs \<noteq> [] \<Longrightarrow> \<forall>f \<in> set fs. sep \<notin> set f \<Longrightarrow> split_on sep (join [sep] fs) = fs"
  by (cases fs) (simp_all only: split_on_join_Cons list.distinct)

lemma count_join_Cons:
  "\<forall>f \<in> set (x # xs). sep \<notin> set f \<Longrightarrow> count_list (join [sep] (x # xs)) sep = length xs"
proof (induction xs arbitrary: x)
  case Nil
  then show ?case by (simp add: count_list_0_iff)
next
  case (Cons y ys)
  then have "count_list (join [sep] (y # ys)) sep = length ys" by simp
  with Cons.prems show ?case by (simp add: count_list_0_iff)
qed

lemma count_join:
  "fs \<noteq> [] \<Longrightarrow> \<forall>f \<in> set fs. sep \<notin> set f \<Longrightarrow> count_list (join [sep] fs) sep = length fs - 1"
  by (cases fs) (simp_all add: count_join_Cons del: join.simps)

lemma split_format_row:
  "split_on TAB (format_row p v d u l sf su h src) =
     map sanitize [p, v, src, ''Reviewer'', ''Installer'', d, u, l, sf, su, h]"
  unfolding format_row_def
  by (rule split_on_join) (simp_all add: sanitize_no_tab)


text \<open>
  Claim C8. Every row the row formatter builds has exactly ten tab characters and splits at
  them into exactly eleven fields, the sanitized columns in their order, whatever the field
  values are: \<open>sanitize\<close> replaces every tab of a field by a space, so no field has one.
\<close>

theorem format_row_ten_tabs:
  "count_list (format_row p v d u l sf su h src) TAB = 10 \<and>
   length (split_on TAB (format_row p v d u l sf su h src)) = 11 \<and>
   split_on TAB (format_row p v d u l sf su h src) =
     map sanitize [p, v, src, ''Reviewer'', ''Installer'', d, u, l, sf, su, h] \<and>
   TAB \<notin> set (sanitize field) \<and>
   sanitize field = map (\<lambda>c. if c = TAB then SPACE else c) field"
proof -
  have "count_list (format_row p v d u l sf su h src) TAB =
          length (map sanitize [p, v, src, ''Reviewer'', ''Installer'', d, u, l, sf, su, h]) - 1"
    unfolding format_row_def
    by (rule count_join) (simp_all add: sanitize_no_tab)
  then show ?thesis
    using sanitize_no_tab [of field] by (simp add: split_format_row) (simp add: sanitize_def)
qed

section \<open>Metadata\<close>

lemma lower_char_idem: "lower_char (lower_char c) = lower_char c"
proof -
  have "of_char c < (256 :: nat)" by simp
  then show ?thesis
    unfolding lower_char_def Let_def by auto
qed

lemma lower_fixed: "set v \<subseteq> set (lower s) \<Longrightarrow> lower v = v"
  unfolding lower_def by (rule map_idI) (auto simp: lower_char_idem)

lemma split_acc_chars: "t \<in> set (split_acc cur s) \<Longrightarrow> set t \<subseteq> set cur \<union> set s"
proof (induction s arbitrary: cur)
  case Nil
  then show ?case by (auto split: if_splits)
next
  case (Cons c cs)
  show ?case
  proof (cases "is_space c")
    case True
    with Cons.prems have "t = cur \<or> t \<in> set (split_acc [] cs)"
      by (auto split: if_splits)
    with Cons.IH [of "[]"] show ?thesis by auto
  next
    case False
    with Cons.prems have "t \<in> set (split_acc (cur @ [c]) cs)" by simp
    with Cons.IH [of "cur @ [c]"] show ?thesis by auto
  qed
qed

lemma version_token_mem: "version_token ts = Some v \<Longrightarrow> v \<in> set ts"
  by (induction ts rule: version_token.induct) (auto split: if_splits)

lemma scan_line_lower: "lower_version m \<Longrightarrow> lower_version (scan_line m line)"
proof -
  assume m: "lower_version m"
  have tok: "lower v = v" if "version_token (split_ws (lower s)) = Some v" for s v
  proof -
    from that have "v \<in> set (split_acc [] (lower s))"
      unfolding split_ws_def by (rule version_token_mem)
    then have "set v \<subseteq> set (lower s)" using split_acc_chars [of v "[]" "lower s"] by simp
    then show ?thesis by (rule lower_fixed)
  qed
  show ?thesis
    using m tok [of "strip line"]
    by (auto simp: scan_line_def lower_version_def Let_def split: option.splits)
qed

lemma scan_lines_lower: "lower_version m \<Longrightarrow> lower_version (scan_lines m ls)"
  by (induction ls arbitrary: m) (auto simp: Let_def scan_line_lower)

lemma extract_lower: "lower_version (extract_local_metadata res)"
proof (cases res)
  case None
  then show ?thesis by (simp add: extract_local_metadata_def lower_version_def)
next
  case (Some all_lines)
  have "lower_version \<lparr>meta_version = None, meta_description = None\<rparr>"
    by (simp add: lower_version_def)
  then show ?thesis
    unfolding extract_local_metadata_def Some option.case by (rule scan_lines_lower)
qed

lemma scan_line_no_version:
  assumes "prefix ''*'' (strip line) \<or> \<not> contains ''version'' (lower (strip line))"
  shows "meta_version (scan_line m line) = meta_version m"
  using assms by (auto simp: scan_line_def Let_def)

lemma scan_lines_no_version:
  assumes "\<forall>line \<in> set ls. prefix ''*'' (strip line) \<or> \<not> contains ''version'' (lower (strip line))"
  shows "meta_version (scan_lines m ls) = meta_version m"
  using assms
proof (induction ls arbitrary: m)
  case Nil
  show ?case by simp
next
  case (Cons line ls)
  then have "meta_version (scan_line m line) = meta_version m"
    by (intro scan_line_no_version) simp
  moreover have "meta_version (scan_lines (scan_line m line) ls) = meta_version (scan_line m line)"
    using Cons.prems by (intro Cons.IH) simp
  ultimately show ?case by (simp add: Let_def)
qed

text \<open>
  The example of claim C2 does not give the version \<open>2.1\<close>: for the file whose leading
  lines are \<open>* Summary: computes widgets\<close>, \<open>*! version 2.1\<close>,
  \<open>program define widget\<close>, the only line with the token \<open>version\<close> starts with the
  comment marker.
\<close>

theorem widget_example_counterexample:
  "meta_version (extract_local_metadata (Some widget_lines)) \<noteq> Some ''2.1''"
  by code_simp

text \<open>
  Claim C2, as the code has it. For that file the extractor returns the description
  \<open>Summary: computes widgets\<close> and no version, a version being taken only from a line that
  does not start with the comment marker: when each of the lines read starts with the marker
  or lacks \<open>version\<close>, no version is returned.
\<close>

theorem widget_example:
  "extract_local_metadata (Some widget_lines) =
     \<lparr>meta_version = None, meta_description = Some ''Summary: computes widgets''\<rparr> \<and>
   ((\<forall>line \<in> set (take SUMMARY_LINE_LIMIT ls).
       prefix ''*'' (strip line) \<or> \<not> contains ''version'' (lower (strip line))) \<longrightarrow>
    meta_version (extract_local_metadata (Some ls)) = None)"
proof (intro conjI impI)
  show "extract_local_metadata (Some widget_lines) =
     \<lparr>meta_version = None, meta_description = Some ''Summary: computes widgets''\<rparr>"
    by code_simp
next
  assume "\<forall>line \<in> set (take SUMMARY_LINE_LIMIT ls).
       prefix ''*'' (strip line) \<or> \<not> contains ''version'' (lower (strip line))"
  then show "meta_version (extract_local_metadata (Some ls)) = None"
    by (simp add: extract_local_metadata_def scan_lines_no_version)
qed

theorem widget_example_witness:
  "list_all (\<lambda>line. prefix ''*'' (strip line) \<or> \<not> contains ''version'' (lower (strip line)))
     (take SUMMARY_LINE_LIMIT widget_lines) \<and>
   meta_version (extract_local_metadata (Some widget_lines)) = None"
proof -
  have h: "list_all (\<lambda>line. prefix ''*'' (strip line) \<or> \<not> contains ''version'' (lower (strip line)))
     (take SUMMARY_LINE_LIMIT widget_lines)"
    by code_simp
  then have "\<forall>line \<in> set (take SUMMARY_LINE_LIMIT widget_lines).
       prefix ''*'' (strip line) \<or> \<not> contains ''version'' (lower (strip line))"
    by (simp only: list_all_iff)
  with widget_example [of widget_lines, THEN conjunct2]
  have "meta_version (extract_local_metadata (Some widget_lines)) = None" by (rule mp)
  with h show ?thesis by (rule conjI)
qed

text \<open>
  Claim C10. The version the extractor reports is always lower-case (it is its own
  \<open>lower()\<close>), the token being taken from the lower-cased line; a line
  \<open>version 2.1B\<close> gives the version \<open>2.1b\<close>.
\<close>

theorem version_lower_case:
  "(meta_version (extract_local_metadata res) = Some v \<longrightarrow> lower v = v) \<and>
   meta_version (extract_local_metadata (Some [''version 2.1B'' @ [NL]])) = Some ''2.1b''"
proof -
  have "meta_version (extract_local_metadata (Some [''version 2.1B'' @ [NL]])) = Some ''2.1b''"
    by code_simp
  with extract_lower [of res] show ?thesis
    by (simp add: lower_version_def)
qed

theorem version_lower_case_witness:
  "meta_version (extract_local_metadata (Some [''Program Version 2.1B'' @ [NL]])) = Some ''2.1b'' \<and>
   lower ''2.1b'' = ''2.1b''"
proof -
  have h: "meta_version (extract_local_metadata (Some [''Program Version 2.1B'' @ [NL]])) = Some ''2.1b''"
    by code_simp
  from version_lower_case [of "Some [''Program Version 2.1B'' @ [NL]]" "''2.1b''"] h
  show ?thesis by blast
qed

section \<open>The manifest and the report\<close>














end
